theory Spec2Isabelle
  imports Main "HOL-Library.Sublist"
begin

section \<open>Data model of \<open>py_calling_agent/agent.py\<close>\<close>

text \<open>
  \<open>MessageRole\<close> is the string enum of the source; \<open>role_value\<close> is its \<open>.value\<close>.
\<close>

datatype MessageRole = SYSTEM | USER | ASSISTANT | CODE_EXECUTION | EXECUTION_RESULT

fun role_value :: "MessageRole \<Rightarrow> string" where
  "role_value SYSTEM = ''system''"
| "role_value USER = ''user''"
| "role_value ASSISTANT = ''assistant''"
| "role_value CODE_EXECUTION = ''code_execution''"
| "role_value EXECUTION_RESULT = ''execution_result''"

text \<open>
  The dict \<open>role_conversions\<close>: two entries, every other role is absent.
\<close>

definition role_conversions :: "MessageRole \<rightharpoonup> MessageRole" where
  "role_conversions = [CODE_EXECUTION \<mapsto> ASSISTANT, EXECUTION_RESULT \<mapsto> USER]"

text \<open>
  A message object carries its Python class (the source tests
  \<open>isinstance(m, SystemMessage)\<close>), its content and its role. The five subclasses fix
  the role in their constructor; the base class takes any role.
\<close>

datatype MessageClass =
  Cls_Message | Cls_SystemMessage | Cls_UserMessage | Cls_AssistantMessage
  | Cls_CodeExecutionMessage | Cls_ExecutionResultMessage

record Message =
  cls :: MessageClass
  content :: string
  role :: MessageRole

definition SystemMessage :: "string \<Rightarrow> Message" where
  "SystemMessage c = \<lparr>cls = Cls_SystemMessage, content = c, role = SYSTEM\<rparr>"

definition UserMessage :: "string \<Rightarrow> Message" where
  "UserMessage c = \<lparr>cls = Cls_UserMessage, content = c, role = USER\<rparr>"

definition AssistantMessage :: "string \<Rightarrow> Message" where
  "AssistantMessage c = \<lparr>cls = Cls_AssistantMessage, content = c, role = ASSISTANT\<rparr>"

definition CodeExecutionMessage :: "string \<Rightarrow> Message" where
  "CodeExecutionMessage c =
     \<lparr>cls = Cls_CodeExecutionMessage, content = c, role = CODE_EXECUTION\<rparr>"

definition ExecutionResultMessage :: "string \<Rightarrow> Message" where
  "ExecutionResultMessage c =
     \<lparr>cls = Cls_ExecutionResultMessage, content = c, role = EXECUTION_RESULT\<rparr>"

datatype EventType =
  EV_TEXT | EV_CODE | EV_EXECUTION_RESULT | EV_EXECUTION_ERROR | EV_FINAL_RESPONSE
  | EV_MAX_STEPS_REACHED

datatype Event = Event (event_type: EventType) (event_content: string)

datatype ContextState = INITIALIZED | RUNNING | COMPLETED | MAX_STEPS_REACHED

datatype ExecutionStatus = SUCCESS | STATUS_MAX_STEPS_REACHED

text \<open>
  \<open>AgentResponse\<close>: the fields \<open>content\<close> and \<open>max_steps\<close> of the source are
  \<open>response_content\<close> and \<open>response_max_steps\<close> here, since a message and a context
  have fields of the same names.
\<close>

record AgentResponse =
  response_content :: string
  status :: ExecutionStatus
  steps_taken :: int
  response_max_steps :: int

section \<open>ExecutionContext\<close>

record ExecutionContext =
  max_steps :: int
  total_steps :: int
  state :: ContextState

definition new_context :: "int \<Rightarrow> ExecutionContext" where
  "new_context m = \<lparr>max_steps = m, total_steps = 0, state = INITIALIZED\<rparr>"

definition start :: "ExecutionContext \<Rightarrow> ExecutionContext" where
  "start c = c\<lparr>total_steps := 0, state := RUNNING\<rparr>"

text \<open>\<open>next_step\<close> returns its boolean together with the updated context.\<close>

definition next_step :: "ExecutionContext \<Rightarrow> bool \<times> ExecutionContext" where
  "next_step c =
     (if total_steps c \<ge> max_steps c then (False, c\<lparr>state := MAX_STEPS_REACHED\<rparr>)
      else (True, c\<lparr>total_steps := total_steps c + 1\<rparr>))"

definition complete :: "ExecutionContext \<Rightarrow> ExecutionContext" where
  "complete c = c\<lparr>state := COMPLETED\<rparr>"

definition is_running :: "ExecutionContext \<Rightarrow> bool" where
  "is_running c = (state c = RUNNING)"

section \<open>The message store\<close>

datatype error = IndexError

text \<open>
  Python's slice \<open>xs[i:]\<close>: a negative start counts from the end and is clipped at
  the front; a start past the end gives the empty list. So \<open>xs[-0:]\<close> is \<open>xs[0:]\<close>,
  the whole list.
\<close>

definition py_slice_from :: "int \<Rightarrow> 'a list \<Rightarrow> 'a list" where
  "py_slice_from i xs =
     (if i < 0 then drop (nat (max (int (length xs) + i) 0)) xs else drop (nat i) xs)"

text \<open>
  \<open>_trim_history\<close> on the stored list, for \<open>max_history = n\<close>. \<open>self.messages[0]\<close>
  raises IndexError on an empty list (reachable only with a negative \<open>n\<close>).
\<close>

definition trim_history :: "int \<Rightarrow> Message list \<Rightarrow> error + Message list" where
  "trim_history n ms =
     (if int (length ms) > n then
        (case ms of
           [] \<Rightarrow> Inl IndexError
         | system_msg # non_system_messages \<Rightarrow>
             (let max_non_system_messages = n - 1;
                  recent_msgs =
                    (if int (length non_system_messages) > max_non_system_messages
                     then py_slice_from (- max_non_system_messages) non_system_messages
                     else non_system_messages)
              in Inr ([system_msg] @ recent_msgs)))
      else Inr ms)"

text \<open>
  The agent: the state of the two collaborators (model and runtime), the stored
  messages and the two bounds. \<open>agent_max_steps\<close> is \<open>self.max_steps\<close>.
\<close>

record ('m, 'r) agent =
  model :: 'm
  runtime :: 'r
  messages :: "Message list"
  agent_max_steps :: int
  max_history :: int

text \<open>
  \<open>add_message\<close>: append, then trim. Trimming cannot raise here, the list being non-empty
  after the append (lemma \<open>trim_history_append\<close>); the \<open>Inl\<close> branch keeps the appended
  list, as the source would have left it.
\<close>

definition add_message :: "('m, 'r) agent \<Rightarrow> Message \<Rightarrow> ('m, 'r) agent" where
  "add_message ag m =
     (case trim_history (max_history ag) (messages ag @ [m]) of
        Inr ms \<Rightarrow> ag\<lparr>messages := ms\<rparr>
      | Inl e \<Rightarrow> ag\<lparr>messages := messages ag @ [m]\<rparr>)"

text \<open>
  \<open>_update_system_message\<close>, given the prompt that \<open>build_system_prompt\<close> returned.
\<close>

definition update_system_message :: "string \<Rightarrow> ('m, 'r) agent \<Rightarrow> ('m, 'r) agent" where
  "update_system_message system_prompt ag =
     (case messages ag of
        m0 # rest \<Rightarrow>
          (if cls m0 = Cls_SystemMessage
           then ag\<lparr>messages := SystemMessage system_prompt # rest\<rparr>
           else ag\<lparr>messages := SystemMessage system_prompt # messages ag\<rparr>)
      | [] \<Rightarrow> ag\<lparr>messages := SystemMessage system_prompt # messages ag\<rparr>)"

text \<open>
  \<open>_prepare_messages\<close>: each message becomes a dict with the keys \<open>role\<close> and
  \<open>content\<close>, written as an association list. \<open>role_conversions.get(r, r)\<close> is the
  lookup with the default.
\<close>

type_synonym transport = "(string \<times> string) list"

definition prepare_message :: "Message \<Rightarrow> transport" where
  "prepare_message message =
     [(''role'', role_value (case role_conversions (role message) of
                               Some r \<Rightarrow> r | None \<Rightarrow> role message)),
      (''content'', content message)]"

definition prepare_messages :: "Message list \<Rightarrow> transport list" where
  "prepare_messages ms = map prepare_message ms"

section \<open>The collaborators\<close>

text \<open>
  What the agent calls and this file does not define. The model client and the runtime
  are stateful, so each call returns the collaborator's next state; \<open>runtime_execute\<close>
  returns \<open>Inl\<close> of \<open>str(e)\<close> when \<open>execute\<close> raises an \<open>Exception\<close> and \<open>Inr\<close> of the
  result otherwise. \<open>extract_python_code\<close> (module \<open>utils\<close>) returns \<open>None\<close> or a
  string. \<open>next_step_prompt\<close> is \<open>NEXT_STEP_PROMPT.format(execution_result=...)\<close> and
  \<open>build_system_prompt\<close> the system prompt rendered from the runtime (module
  \<open>prompts\<close>). \<open>parser_init\<close> and \<open>process_chunk\<close> are a fresh
  \<open>StreamingTextParser\<close> and its method. Logging is left out.
\<close>

text \<open>
  Modelled from the spec: \<open>SegmentType\<close> and \<open>Segment\<close> of the module
  \<open>streaming_text_parser\<close>, which is not among the sources: a segment has a type,
  TEXT or CODE, and a content string.
\<close>

datatype SegmentType = SEG_TEXT | SEG_CODE

datatype Segment = Segment (segment_type: SegmentType) (segment_content: string)

record ('m, 'r, 'p) env =
  model_call :: "'m \<Rightarrow> transport list \<Rightarrow> string \<times> 'm"
  model_stream :: "'m \<Rightarrow> transport list \<Rightarrow> string list \<times> 'm"
  runtime_execute :: "'r \<Rightarrow> string \<Rightarrow> (string + string) \<times> 'r"
  extract_python_code :: "string \<Rightarrow> string option"
  next_step_prompt :: "string \<Rightarrow> string"
  build_system_prompt :: "'r \<Rightarrow> string"
  parser_init :: 'p
  process_chunk :: "'p \<Rightarrow> string \<Rightarrow> Segment list \<times> 'p"

text \<open>
  Python's truth value of the extractor's result: \<open>not code_snippet\<close> holds for
  \<open>None\<close> and for the empty string.
\<close>

definition no_code :: "string option \<Rightarrow> bool" where
  "no_code code_snippet = (case code_snippet of None \<Rightarrow> True | Some c \<Rightarrow> c = [])"

section \<open>The step engine\<close>

definition retry_prompt :: "string \<Rightarrow> string" where
  "retry_prompt error_msg =
     ''Error: '' @ error_msg @ [CHR 0x0A] @ ''Please fix the code and try again.''"

text \<open>
  \<open>_process_model_response\<close>: the returned string, the context and the agent.
\<close>

definition process_model_response ::
  "('m, 'r, 'p) env \<Rightarrow> string \<Rightarrow> ExecutionContext \<times> ('m, 'r) agent
     \<Rightarrow> string \<times> ExecutionContext \<times> ('m, 'r) agent" where
  "process_model_response E model_response s =
     (case s of (context, ag) \<Rightarrow>
        (case extract_python_code E model_response of
           None \<Rightarrow>
             (model_response, complete context,
              add_message ag (AssistantMessage model_response))
         | Some code_snippet \<Rightarrow>
             if code_snippet = [] then
               (model_response, complete context,
                add_message ag (AssistantMessage model_response))
             else
               (let ag1 = add_message ag (CodeExecutionMessage model_response) in
                case runtime_execute E (runtime ag1) code_snippet of
                  (Inr execution_result, rt) \<Rightarrow>
                    (model_response, context,
                     add_message (ag1\<lparr>runtime := rt\<rparr>)
                       (ExecutionResultMessage (next_step_prompt E execution_result)))
                | (Inl error_msg, rt) \<Rightarrow>
                    (''Execution failed: '' @ error_msg, context,
                     add_message (ag1\<lparr>runtime := rt\<rparr>)
                       (ExecutionResultMessage (retry_prompt error_msg))))))"

text \<open>\<open>_execute_step\<close>: one call of the model, then the handler.\<close>

definition execute_step ::
  "('m, 'r, 'p) env \<Rightarrow> ExecutionContext \<times> ('m, 'r) agent
     \<Rightarrow> string \<times> ExecutionContext \<times> ('m, 'r) agent" where
  "execute_step E s =
     (case s of (context, ag) \<Rightarrow>
        (case model_call E (model ag) (prepare_messages (messages ag)) of
           (model_response, m) \<Rightarrow>
             process_model_response E model_response (context, ag\<lparr>model := m\<rparr>)))"

text \<open>\<open>_initialize_conversation\<close>.\<close>

definition initialize_conversation ::
  "('m, 'r, 'p) env \<Rightarrow> string \<Rightarrow> ('m, 'r) agent \<Rightarrow> ('m, 'r) agent" where
  "initialize_conversation E user_query ag =
     add_message (update_system_message (build_system_prompt E (runtime ag)) ag)
       (UserMessage user_query)"

text \<open>
  A step changes neither the step count nor the budget of the context; the run loop's
  termination rests on this.
\<close>

lemma process_model_response_steps:
  "process_model_response E r (c, ag) = (out, c', ag') \<Longrightarrow>
     total_steps c' = total_steps c \<and> max_steps c' = max_steps c"
  by (auto simp: process_model_response_def complete_def Let_def
           split: option.splits if_splits prod.splits sum.splits)

lemma execute_step_steps:
  "execute_step E (c, ag) = (out, c', ag') \<Longrightarrow>
     total_steps c' = total_steps c \<and> max_steps c' = max_steps c"
  by (auto simp: execute_step_def split: prod.splits dest: process_model_response_steps)

section \<open>The run loop\<close>

text \<open>
  The \<open>while\<close> loop of \<open>run\<close>. It returns the response together with the context and
  the agent as the loop leaves them; \<open>None\<close> is Python's implicit \<open>return None\<close> when the
  loop condition fails.
\<close>

function run_loop ::
  "('m, 'r, 'p) env \<Rightarrow> ExecutionContext \<times> ('m, 'r) agent
     \<Rightarrow> AgentResponse option \<times> ExecutionContext \<times> ('m, 'r) agent" where
  "run_loop E (context, ag) =
     (if is_running context then
        (case next_step context of
           (False, context1) \<Rightarrow>
             (Some \<lparr>response_content = [], status = STATUS_MAX_STEPS_REACHED,
                    steps_taken = total_steps context1,
                    response_max_steps = agent_max_steps ag\<rparr>, context1, ag)
         | (True, context1) \<Rightarrow>
             (case execute_step E (context1, ag) of
                (response, context2, ag2) \<Rightarrow>
                  if \<not> is_running context2 then
                    (Some \<lparr>response_content = response, status = SUCCESS,
                           steps_taken = total_steps context2,
                           response_max_steps = agent_max_steps ag2\<rparr>, context2, ag2)
                  else run_loop E (context2, ag2)))
      else (None, context, ag))"
  by pat_completeness auto
termination
  apply (relation "measure (\<lambda>(E, c, ag). nat (max_steps c - total_steps c))")
   apply simp
  apply (clarsimp simp: next_step_def split: if_splits)
  apply (drule sym)
  apply (drule execute_step_steps)
  apply simp
  done

definition run ::
  "('m, 'r, 'p) env \<Rightarrow> string \<Rightarrow> ('m, 'r) agent
     \<Rightarrow> AgentResponse option \<times> ExecutionContext \<times> ('m, 'r) agent" where
  "run E query ag =
     run_loop E (start (new_context (agent_max_steps ag)), initialize_conversation E query ag)"

section \<open>Streaming\<close>

text \<open>
  An asynchronous generator is the list of the events it yields, each paired with the
  execution context as it is at that \<open>yield\<close> (the consumer reads \<open>context.is_running\<close>
  between two events), and the state once the generator is exhausted.
\<close>

definition process_model_response_streaming ::
  "('m, 'r, 'p) env \<Rightarrow> string \<Rightarrow> ExecutionContext \<times> ('m, 'r) agent
     \<Rightarrow> (Event \<times> ExecutionContext) list \<times> ExecutionContext \<times> ('m, 'r) agent" where
  "process_model_response_streaming E model_response s =
     (case s of (context, ag) \<Rightarrow>
        (case extract_python_code E model_response of
           None \<Rightarrow>
             ([(Event EV_FINAL_RESPONSE model_response, complete context)],
              complete context, add_message ag (AssistantMessage model_response))
         | Some code_snippet \<Rightarrow>
             if code_snippet = [] then
               ([(Event EV_FINAL_RESPONSE model_response, complete context)],
                complete context, add_message ag (AssistantMessage model_response))
             else
               (let ag1 = add_message ag (CodeExecutionMessage model_response) in
                case runtime_execute E (runtime ag1) code_snippet of
                  (Inr execution_result, rt) \<Rightarrow>
                    ([(Event EV_EXECUTION_RESULT execution_result, context)], context,
                     add_message (ag1\<lparr>runtime := rt\<rparr>)
                       (ExecutionResultMessage (next_step_prompt E execution_result)))
                | (Inl error_msg, rt) \<Rightarrow>
                    ([(Event EV_EXECUTION_ERROR error_msg, context)], context,
                     add_message (ag1\<lparr>runtime := rt\<rparr>)
                       (ExecutionResultMessage (retry_prompt error_msg))))))"

text \<open>The events of the segments one \<open>process_chunk\<close> call returned.\<close>

fun segment_events :: "Segment list \<Rightarrow> Event list" where
  "segment_events [] = []"
| "segment_events (segment # segments) =
     (if segment_type segment = SEG_TEXT
      then Event EV_TEXT (segment_content segment) # segment_events segments
      else if segment_type segment = SEG_CODE
      then Event EV_CODE (segment_content segment) # segment_events segments
      else segment_events segments)"

text \<open>The loop over the chunks of the model's stream, one parser through all of them.\<close>

fun parse_chunks :: "('m, 'r, 'p) env \<Rightarrow> 'p \<Rightarrow> string list \<Rightarrow> Event list" where
  "parse_chunks E parser [] = []"
| "parse_chunks E parser (chunk # chunks) =
     (case process_chunk E parser chunk of
        (parsed_segments, parser1) \<Rightarrow>
          segment_events parsed_segments @ parse_chunks E parser1 chunks)"

definition stream_step_execution ::
  "('m, 'r, 'p) env \<Rightarrow> ExecutionContext \<times> ('m, 'r) agent
     \<Rightarrow> (Event \<times> ExecutionContext) list \<times> ExecutionContext \<times> ('m, 'r) agent" where
  "stream_step_execution E s =
     (case s of (context, ag) \<Rightarrow>
        (case model_stream E (model ag) (prepare_messages (messages ag)) of
           (chunks, m) \<Rightarrow>
             (let model_response = concat chunks in
              case process_model_response_streaming E model_response
                     (context, ag\<lparr>model := m\<rparr>) of
                (events, s1) \<Rightarrow>
                  (map (\<lambda>e. (e, context)) (parse_chunks E (parser_init E) chunks) @ events,
                   s1))))"

text \<open>
  The inner loop of \<open>stream_events\<close>: yield each event of the step, and return after
  the first one that finds the context no longer running. The boolean says whether it
  returned.
\<close>

fun forward_events :: "(Event \<times> ExecutionContext) list \<Rightarrow> Event list \<times> bool" where
  "forward_events [] = ([], False)"
| "forward_events ((event, context) # rest) =
     (if \<not> is_running context then ([event], True)
      else (case forward_events rest of (out, returned) \<Rightarrow> (event # out, returned)))"

lemma process_model_response_streaming_steps:
  "process_model_response_streaming E r (c, ag) = (evs, c', ag') \<Longrightarrow>
     total_steps c' = total_steps c \<and> max_steps c' = max_steps c"
  by (auto simp: process_model_response_streaming_def complete_def Let_def
           split: option.splits if_splits prod.splits sum.splits)

lemma stream_step_execution_steps:
  "stream_step_execution E (c, ag) = (evs, c', ag') \<Longrightarrow>
     total_steps c' = total_steps c \<and> max_steps c' = max_steps c"
  by (auto simp: stream_step_execution_def Let_def split: prod.splits
           dest: process_model_response_streaming_steps)

text \<open>The outer \<open>while\<close> loop of \<open>stream_events\<close>: all the events it yields.\<close>

function stream_loop ::
  "('m, 'r, 'p) env \<Rightarrow> ExecutionContext \<times> ('m, 'r) agent \<Rightarrow> Event list" where
  "stream_loop E (context, ag) =
     (if is_running context then
        (case next_step context of
           (False, context1) \<Rightarrow> [Event EV_MAX_STEPS_REACHED ''Max steps reached'']
         | (True, context1) \<Rightarrow>
             (case stream_step_execution E (context1, ag) of
                (events, context2, ag2) \<Rightarrow>
                  (case forward_events events of
                     (out, True) \<Rightarrow> out
                   | (out, False) \<Rightarrow> out @ stream_loop E (context2, ag2))))
      else [])"
  by pat_completeness auto
termination
  apply (relation "measure (\<lambda>(E, c, ag). nat (max_steps c - total_steps c))")
   apply simp
  apply (clarsimp simp: next_step_def split: if_splits)
  apply (drule sym)
  apply (drule stream_step_execution_steps)
  apply simp
  done

definition stream_events ::
  "('m, 'r, 'p) env \<Rightarrow> string \<Rightarrow> ('m, 'r) agent \<Rightarrow> Event list" where
  "stream_events E query ag =
     stream_loop E (start (new_context (agent_max_steps ag)), initialize_conversation E query ag)"

text \<open>The two event types after which \<open>stream_events\<close> returns.\<close>

definition terminal :: "Event \<Rightarrow> bool" where
  "terminal e = (event_type e = EV_FINAL_RESPONSE \<or> event_type e = EV_MAX_STEPS_REACHED)"

section \<open>The incremental segmenter\<close>

text \<open>
  Modelled from the spec: the states of the Incremental Segmenter (section 4.4; the
  class \<open>StreamingTextParser\<close> is not among the sources). ENTERING_CODE and
  EXITING_CODE are the states with a partial opening or closing marker buffered.
\<close>

datatype SegmenterState = OUTSIDE_CODE | ENTERING_CODE | INSIDE_CODE | EXITING_CODE

text \<open>
  Modelled from the spec: the segmenter's state that persists across calls: its state,
  the text or code body buffered so far, and the buffered partial marker.
\<close>

record segmenter =
  segmenter_state :: SegmenterState
  buffered :: string
  partial_marker :: string

text \<open>Modelled from the spec: a fresh segmenter, outside code with nothing buffered.\<close>

definition new_segmenter :: segmenter where
  "new_segmenter = \<lparr>segmenter_state = OUTSIDE_CODE, buffered = [], partial_marker = []\<rparr>"

text \<open>
  Modelled from the spec: whether the segmenter is inside a code block (an opening
  marker was recognised and its closing marker not yet).
\<close>

definition in_code :: "segmenter \<Rightarrow> bool" where
  "in_code p = (segmenter_state p = INSIDE_CODE \<or> segmenter_state p = EXITING_CODE)"

text \<open>
  Modelled from the spec: flushing what is buffered, as a CODE segment inside code and
  a TEXT segment outside; nothing buffered gives no segment.
\<close>

definition flush_buffered :: "bool \<Rightarrow> string \<Rightarrow> Segment list" where
  "flush_buffered inside buf =
     (if buf = [] then [] else [Segment (if inside then SEG_CODE else SEG_TEXT) buf])"

text \<open>
  Modelled from the spec: the marker the scan looks for, the closing one inside code
  and the opening one outside. The spec does not fix the two marker tokens; they are
  parameters.
\<close>

definition awaited_marker :: "string \<Rightarrow> string \<Rightarrow> bool \<Rightarrow> string" where
  "awaited_marker open_marker close_marker inside = (if inside then close_marker else open_marker)"

text \<open>
  Modelled from the spec: the scan of the buffered partial marker followed by the new
  chunk. A complete marker flushes what is buffered before it and changes sides; data
  that may still become the marker is kept as the partial marker; any other character
  is buffered.
\<close>

function scan ::
  "string \<Rightarrow> string \<Rightarrow> bool \<Rightarrow> string \<Rightarrow> string \<Rightarrow> Segment list \<times> segmenter" where
  "scan open_marker close_marker inside buf [] =
     ([], \<lparr>segmenter_state = (if inside then INSIDE_CODE else OUTSIDE_CODE),
           buffered = buf, partial_marker = []\<rparr>)"
| "scan open_marker close_marker inside buf (x # xs) =
     (if (awaited_marker open_marker close_marker inside) \<noteq> []
         \<and> prefix (awaited_marker open_marker close_marker inside) (x # xs)
      then (case scan open_marker close_marker (\<not> inside) []
                   (drop (length (awaited_marker open_marker close_marker inside)) (x # xs)) of
              (segments, p) \<Rightarrow> (flush_buffered inside buf @ segments, p))
      else if prefix (x # xs) (awaited_marker open_marker close_marker inside)
      then ([], \<lparr>segmenter_state = (if inside then EXITING_CODE else ENTERING_CODE),
                 buffered = buf, partial_marker = x # xs\<rparr>)
      else scan open_marker close_marker inside (buf @ [x]) xs)"
  by pat_completeness auto
termination
  by (relation "measure (\<lambda>(open_marker, close_marker, inside, buf, data). length data)") auto

text \<open>
  Modelled from the spec: one call of the segmenter on a chunk, returning the completed
  segments and the next state.
\<close>

definition segmenter_process_chunk ::
  "string \<Rightarrow> string \<Rightarrow> segmenter \<Rightarrow> string \<Rightarrow> Segment list \<times> segmenter" where
  "segmenter_process_chunk open_marker close_marker p chunk =
     scan open_marker close_marker (in_code p) (buffered p) (partial_marker p @ chunk)"

text \<open>
  Modelled from the spec: at the end of the stream whatever is buffered is flushed, a
  partial marker included, as TEXT outside code and as CODE inside.
\<close>

definition end_of_stream :: "segmenter \<Rightarrow> Segment list" where
  "end_of_stream p = flush_buffered (in_code p) (buffered p @ partial_marker p)"

text \<open>Modelled from the spec: feeding chunks in order to one segmenter.\<close>

fun feed_chunks ::
  "string \<Rightarrow> string \<Rightarrow> segmenter \<Rightarrow> string list \<Rightarrow> Segment list \<times> segmenter" where
  "feed_chunks open_marker close_marker p [] = ([], p)"
| "feed_chunks open_marker close_marker p (chunk # chunks) =
     (case segmenter_process_chunk open_marker close_marker p chunk of
        (segments, p1) \<Rightarrow>
          (case feed_chunks open_marker close_marker p1 chunks of
             (later, p2) \<Rightarrow> (segments @ later, p2)))"

text \<open>
  Modelled from the spec: all the segments of a stream given as chunks: those of the
  calls in order, then the flush at the end of the stream.
\<close>

definition segments_of :: "string \<Rightarrow> string \<Rightarrow> string list \<Rightarrow> Segment list" where
  "segments_of open_marker close_marker chunks =
     (case feed_chunks open_marker close_marker new_segmenter chunks of
        (segments, p) \<Rightarrow> segments @ end_of_stream p)"

section \<open>Message lists as objects\<close>

text \<open>
  Python lists are objects: the constructor's \<open>messages\<close> argument and
  \<open>self.messages\<close> are references, and \<open>append\<close>, \<open>insert\<close> and item assignment
  change the object they refer to. For what depends on this, the list objects live in
  a store, a reference being an index into it; a new list object goes at the end.
  Message objects are never changed after their construction, so they stay values.
\<close>

type_synonym ref = nat

type_synonym object_store = "Message list list"

definition new_list :: "object_store \<Rightarrow> Message list \<Rightarrow> ref \<times> object_store" where
  "new_list st xs = (length st, st @ [xs])"

text \<open>
  The agent as an object, with the fields the message store involves:
  \<open>self.messages\<close>, a reference, and \<open>self.max_history\<close>.
\<close>

record agent_object =
  messages_ref :: ref
  object_max_history :: int

text \<open>
  \<open>__init__\<close>: \<open>self.messages = messages.copy()\<close> makes a new list object with the
  elements of the argument. \<open>None\<close> stands for a reference to no object, which Python
  cannot produce.
\<close>

definition init_agent ::
  "object_store \<Rightarrow> ref \<Rightarrow> int \<Rightarrow> (agent_object \<times> object_store) option" where
  "init_agent st messages_arg n =
     (if messages_arg < length st then
        (case new_list st (st ! messages_arg) of
           (r, st1) \<Rightarrow> Some (\<lparr>messages_ref = r, object_max_history = n\<rparr>, st1))
      else None)"

text \<open>
  \<open>add_message\<close> on objects: \<open>append\<close> changes the agent's list in place;
  \<open>_trim_history\<close>, when the list is over the bound, builds a new list and rebinds
  \<open>self.messages\<close> to it.
\<close>

definition add_message_in_store ::
  "object_store \<Rightarrow> agent_object \<Rightarrow> Message \<Rightarrow> (agent_object \<times> object_store) option" where
  "add_message_in_store st a m =
     (if messages_ref a < length st then
        (let appended = st ! messages_ref a @ [m];
             st1 = st[messages_ref a := appended]
         in if int (length appended) > object_max_history a then
              (case trim_history (object_max_history a) appended of
                 Inr trimmed \<Rightarrow>
                   (case new_list st1 trimmed of
                      (r, st2) \<Rightarrow> Some (a\<lparr>messages_ref := r\<rparr>, st2))
               | Inl e \<Rightarrow> None)
            else Some (a, st1))
      else None)"

text \<open>
  \<open>_update_system_message\<close> on objects: item assignment or \<open>insert(0, ...)\<close>, both
  in place.
\<close>

definition update_system_message_in_store ::
  "object_store \<Rightarrow> agent_object \<Rightarrow> string \<Rightarrow> (agent_object \<times> object_store) option" where
  "update_system_message_in_store st a system_prompt =
     (if messages_ref a < length st then
        (case st ! messages_ref a of
           m0 # rest \<Rightarrow>
             (if cls m0 = Cls_SystemMessage
              then Some (a, st[messages_ref a := (st ! messages_ref a)[0 := SystemMessage system_prompt]])
              else Some (a, st[messages_ref a := SystemMessage system_prompt # st ! messages_ref a]))
         | [] \<Rightarrow> Some (a, st[messages_ref a := SystemMessage system_prompt # st ! messages_ref a]))
      else None)"

text \<open>The two operations that change an agent's history.\<close>

datatype agent_operation = Add_message Message | Update_system_message string

fun apply_operation ::
  "object_store \<Rightarrow> agent_object \<Rightarrow> agent_operation \<Rightarrow> (agent_object \<times> object_store) option" where
  "apply_operation st a (Add_message m) = add_message_in_store st a m"
| "apply_operation st a (Update_system_message p) = update_system_message_in_store st a p"

text \<open>
  The operations of two agents in any interleaving, in one store; the boolean says
  whether the operation is the first agent's.
\<close>

fun apply_interleaved ::
  "object_store \<Rightarrow> agent_object \<times> agent_object \<Rightarrow> (bool \<times> agent_operation) list
     \<Rightarrow> ((agent_object \<times> agent_object) \<times> object_store) option" where
  "apply_interleaved st (a, b) [] = Some ((a, b), st)"
| "apply_interleaved st (a, b) ((first, op) # ops) =
     (if first then
        (case apply_operation st a op of
           None \<Rightarrow> None
         | Some (a1, st1) \<Rightarrow> apply_interleaved st1 (a1, b) ops)
      else
        (case apply_operation st b op of
           None \<Rightarrow> None
         | Some (b1, st1) \<Rightarrow> apply_interleaved st1 (a, b1) ops))"

text \<open>
  The history an operation leaves, computed on list values by \<open>add_message\<close> and
  \<open>update_system_message\<close> above, for an agent of which only the history matters.
\<close>

definition history_only :: "int \<Rightarrow> Message list \<Rightarrow> (unit, unit) agent" where
  "history_only n xs =
     \<lparr>model = (), runtime = (), messages = xs, agent_max_steps = 0, max_history = n\<rparr>"

fun history_after :: "int \<Rightarrow> Message list \<Rightarrow> agent_operation \<Rightarrow> Message list" where
  "history_after n xs (Add_message m) = messages (add_message (history_only n xs) m)"
| "history_after n xs (Update_system_message p) =
     messages (update_system_message p (history_only n xs))"

section \<open>Example collaborators\<close>

text \<open>
  A model client that answers every call with the same response and counts its calls,
  an extractor that finds the given code in that response and nothing elsewhere, a
  runtime that gives the same outcome for every execution and counts them, and a parser
  that returns each chunk as one text segment. The theorems below are run on them.
\<close>

definition example_env ::
  "string \<Rightarrow> string option \<Rightarrow> string + string \<Rightarrow> (nat, nat, unit) env" where
  "example_env response code outcome =
     \<lparr>model_call = (\<lambda>m msgs. (response, Suc m)),
      model_stream = (\<lambda>m msgs. ([response], Suc m)),
      runtime_execute = (\<lambda>r c. (outcome, Suc r)),
      extract_python_code = (\<lambda>s. if s = response then code else None),
      next_step_prompt = (\<lambda>r. ''Result: '' @ r),
      build_system_prompt = (\<lambda>r. ''system prompt''),
      parser_init = (),
      process_chunk = (\<lambda>p chunk. ([Segment SEG_TEXT chunk], p))\<rparr>"

definition example_agent :: "int \<Rightarrow> int \<Rightarrow> (nat, nat) agent" where
  "example_agent m n =
     \<lparr>model = 0, runtime = 0, messages = [], agent_max_steps = m, max_history = n\<rparr>"

section \<open>Facts about the message store\<close>

lemma py_slice_from_last:
  assumes "xs \<noteq> []" "i \<le> 0"
  shows "py_slice_from i xs \<noteq> [] \<and> last (py_slice_from i xs) = last xs"
proof (cases "i = 0")
  case True
  with assms show ?thesis by (simp add: py_slice_from_def)
next
  case False
  from assms have "0 < length xs" by simp
  with False assms have lt: "nat (max (int (length xs) + i) 0) < length xs" by linarith
  from False assms have "py_slice_from i xs = drop (nat (max (int (length xs) + i) 0)) xs"
    by (simp add: py_slice_from_def)
  with lt show ?thesis by (simp add: last_drop)
qed

lemma trim_history_append: "\<exists>xs. trim_history n (ms @ [m]) = Inr xs"
  by (cases ms) (auto simp: trim_history_def Let_def)

lemma trim_history_last:
  assumes "1 \<le> n" "ms \<noteq> []" "trim_history n ms = Inr xs"
  shows "xs \<noteq> [] \<and> last xs = last ms"
proof (cases "int (length ms) > n")
  case False
  with assms show ?thesis by (simp add: trim_history_def)
next
  case True
  obtain a rest where ms: "ms = a # rest" using assms(2) by (cases ms) auto
  from True ms assms(1) have rest: "rest \<noteq> []" by auto
  from True ms have "int (length rest) > n - 1" by simp
  with True ms assms(3) have xs: "xs = a # py_slice_from (- (n - 1)) rest"
    by (simp add: trim_history_def Let_def)
  from py_slice_from_last[OF rest, of "- (n - 1)"] assms(1)
  have "py_slice_from (- (n - 1)) rest \<noteq> [] \<and> last (py_slice_from (- (n - 1)) rest) = last rest"
    by simp
  with xs ms rest show ?thesis by simp
qed

lemma add_message_last:
  "1 \<le> max_history ag \<Longrightarrow>
     messages (add_message ag m) \<noteq> [] \<and> last (messages (add_message ag m)) = m"
  using trim_history_last[of "max_history ag" "messages ag @ [m]"]
  by (auto simp: add_message_def split: sum.splits)

lemma add_message_frame:
  "model (add_message ag m) = model ag \<and> runtime (add_message ag m) = runtime ag
   \<and> agent_max_steps (add_message ag m) = agent_max_steps ag
   \<and> max_history (add_message ag m) = max_history ag"
  by (simp add: add_message_def split: sum.splits)

lemma add_message_hd:
  "messages ag \<noteq> [] \<Longrightarrow>
     messages (add_message ag m) \<noteq> [] \<and> hd (messages (add_message ag m)) = hd (messages ag)"
  by (cases "messages ag") (auto simp: add_message_def trim_history_def Let_def split: sum.splits)

lemma py_slice_from_length:
  "0 \<le> k \<Longrightarrow> int (length xs) > k \<Longrightarrow> 0 < k \<Longrightarrow> int (length (py_slice_from (- k) xs)) = k"
  by (auto simp: py_slice_from_def)

lemma add_message_length:
  "2 \<le> max_history ag \<Longrightarrow>
     int (length (messages (add_message ag m))) = min (int (length (messages ag)) + 1) (max_history ag)"
  by (cases "messages ag")
     (auto simp: add_message_def trim_history_def Let_def py_slice_from_def split: sum.splits)

section \<open>The execution context as a state machine\<close>

text \<open>
  C4. \<open>start\<close> takes an INITIALIZED context to RUNNING with the step count 0;
  \<open>next_step\<close> on a RUNNING context below its budget adds one step, stays RUNNING and
  returns true; \<open>next_step\<close> on a RUNNING context whose count equals the budget goes to
  MAX_STEPS_REACHED, leaves the count alone and returns false; \<open>complete\<close> takes RUNNING
  to COMPLETED; and \<open>is_running\<close> holds exactly in state RUNNING.
\<close>

theorem execution_context_transitions:
  "(state c = INITIALIZED \<longrightarrow>
      state (start c) = RUNNING \<and> total_steps (start c) = 0 \<and> max_steps (start c) = max_steps c)
   \<and> (state c = RUNNING \<and> total_steps c < max_steps c \<longrightarrow>
      next_step c = (True, c\<lparr>total_steps := total_steps c + 1\<rparr>)
      \<and> state (snd (next_step c)) = RUNNING
      \<and> total_steps (snd (next_step c)) = total_steps c + 1)
   \<and> (state c = RUNNING \<and> total_steps c = max_steps c \<longrightarrow>
      fst (next_step c) = False
      \<and> state (snd (next_step c)) = MAX_STEPS_REACHED
      \<and> total_steps (snd (next_step c)) = total_steps c)
   \<and> (state c = RUNNING \<longrightarrow>
      state (complete c) = COMPLETED \<and> total_steps (complete c) = total_steps c)
   \<and> (is_running c \<longleftrightarrow> state c = RUNNING)"
  by (simp add: start_def next_step_def complete_def is_running_def)

theorem execution_context_transitions_witness:
  "state (start (new_context 3)) = RUNNING
   \<and> total_steps (start (new_context 3)) = 0
   \<and> next_step (start (new_context 3)) = (True, \<lparr>max_steps = 3, total_steps = 1, state = RUNNING\<rparr>)
   \<and> next_step \<lparr>max_steps = 3, total_steps = 3, state = RUNNING\<rparr>
       = (False, \<lparr>max_steps = 3, total_steps = 3, state = MAX_STEPS_REACHED\<rparr>)
   \<and> state (complete (start (new_context 3))) = COMPLETED
   \<and> is_running (start (new_context 3))
   \<and> \<not> is_running (new_context 3)"
  using execution_context_transitions [of "new_context 3"]
    execution_context_transitions [of "start (new_context 3)"]
    execution_context_transitions [of "\<lparr>max_steps = 3, total_steps = 3, state = RUNNING\<rparr>"]
  by (simp add: new_context_def start_def next_step_def)

section \<open>Exhausting the step budget\<close>

lemma process_model_response_code:
  assumes "\<not> no_code (extract_python_code E r)"
  shows "\<exists>out ag'. process_model_response E r (c, ag) = (out, c, ag')
           \<and> agent_max_steps ag' = agent_max_steps ag"
  using assms
  by (auto simp: process_model_response_def no_code_def Let_def add_message_frame
           split: option.splits prod.splits sum.splits)

lemma execute_step_code:
  assumes "\<forall>m msgs. \<not> no_code (extract_python_code E (fst (model_call E m msgs)))"
  shows "\<exists>out ag'. execute_step E (c, ag) = (out, c, ag')
           \<and> agent_max_steps ag' = agent_max_steps ag"
proof -
  obtain r m where mc: "model_call E (model ag) (prepare_messages (messages ag)) = (r, m)"
    by (cases "model_call E (model ag) (prepare_messages (messages ag))") auto
  from assms have "\<not> no_code (extract_python_code E (fst (model_call E (model ag) (prepare_messages (messages ag)))))"
    by blast
  with mc have nc: "\<not> no_code (extract_python_code E r)" by simp
  from process_model_response_code[OF nc, of c "ag\<lparr>model := m\<rparr>"] mc
  show ?thesis by (auto simp: execute_step_def)
qed

lemma run_loop_always_code_aux:
  assumes "\<forall>m msgs. \<not> no_code (extract_python_code E (fst (model_call E m msgs)))"
  shows "is_running (fst s) \<Longrightarrow> total_steps (fst s) \<le> max_steps (fst s) \<Longrightarrow>
     \<exists>c' ag'. run_loop E s =
        (Some \<lparr>response_content = [], status = STATUS_MAX_STEPS_REACHED,
               steps_taken = max_steps (fst s),
               response_max_steps = agent_max_steps (snd s)\<rparr>, c', ag')
        \<and> state c' = MAX_STEPS_REACHED \<and> total_steps c' = max_steps (fst s)"
  using assms
proof (induction E s rule: run_loop.induct)
  case (1 E c ag)
  from 1(2) have rc: "is_running c" by simp
  from 1(3) have lc: "total_steps c \<le> max_steps c" by simp
  show ?case
  proof (cases "total_steps c \<ge> max_steps c")
    case True
    with rc lc show ?thesis
      by (subst run_loop.simps) (simp add: next_step_def)
  next
    case False
    let ?c1 = "c\<lparr>total_steps := total_steps c + 1\<rparr>"
    have ns: "next_step c = (True, ?c1)" using False by (simp add: next_step_def)
    from execute_step_code[OF 1(4), of ?c1 ag] obtain out ag1 where
      ex: "execute_step E (?c1, ag) = (out, ?c1, ag1)"
      and ms: "agent_max_steps ag1 = agent_max_steps ag"
      by (elim exE conjE)
    have run1: "is_running ?c1" using rc by (simp add: is_running_def)
    have le1: "total_steps ?c1 \<le> max_steps ?c1" using False by simp
    have "\<exists>c' ag'. run_loop E (?c1, ag1) =
        (Some \<lparr>response_content = [], status = STATUS_MAX_STEPS_REACHED,
               steps_taken = max_steps (fst (?c1, ag1)),
               response_max_steps = agent_max_steps (snd (?c1, ag1))\<rparr>, c', ag')
        \<and> state c' = MAX_STEPS_REACHED \<and> total_steps c' = max_steps (fst (?c1, ag1))"
      using rc ns ex run1 le1 1(4)
      by (intro 1(1)[where x = True and y = ?c1 and xa = out and ya = "(?c1, ag1)"
                       and xb = ?c1 and yb = ag1])
         simp_all
    then show ?thesis using rc ns ex ms run1
      by (subst run_loop.simps) auto
  qed
qed

text \<open>
  C1. With a step budget of at least one and a model whose every response yields code
  (the extractor returns a non-empty string), \<open>run\<close> returns a response with status
  MAX_STEPS_REACHED whose \<open>steps_taken\<close> is the budget, and leaves the context in state
  MAX_STEPS_REACHED with as many steps counted.
\<close>

theorem run_always_code_max_steps:
  assumes "1 \<le> agent_max_steps ag"
    and "\<forall>m msgs. \<not> no_code (extract_python_code E (fst (model_call E m msgs)))"
  shows "\<exists>c' ag'. run E query ag =
        (Some \<lparr>response_content = [], status = STATUS_MAX_STEPS_REACHED,
               steps_taken = agent_max_steps ag, response_max_steps = agent_max_steps ag\<rparr>, c', ag')
        \<and> state c' = MAX_STEPS_REACHED \<and> total_steps c' = agent_max_steps ag"
proof -
  let ?c = "start (new_context (agent_max_steps ag))"
  have r: "is_running ?c" by (simp add: is_running_def start_def)
  have l: "total_steps ?c \<le> max_steps ?c" using assms(1) by (simp add: start_def new_context_def)
  have m: "max_steps ?c = agent_max_steps ag" by (simp add: start_def new_context_def)
  have a: "agent_max_steps (initialize_conversation E query ag) = agent_max_steps ag"
    by (simp add: initialize_conversation_def add_message_frame update_system_message_def
             split: list.splits)
  from run_loop_always_code_aux[OF assms(2), of "(?c, initialize_conversation E query ag)"] r l
  show ?thesis by (simp add: run_def m a)
qed

theorem run_always_code_max_steps_witness:
  "\<exists>c' ag'. run (example_env ''reply'' (Some ''f()'') (Inr ''1'')) ''query'' (example_agent 2 10) =
        (Some \<lparr>response_content = [], status = STATUS_MAX_STEPS_REACHED,
               steps_taken = 2, response_max_steps = 2\<rparr>, c', ag')
        \<and> state c' = MAX_STEPS_REACHED \<and> total_steps c' = 2"
  using run_always_code_max_steps [of "example_agent 2 10"
      "example_env ''reply'' (Some ''f()'') (Inr ''1'')" "''query''"]
  by (simp add: example_agent_def example_env_def no_code_def)

text \<open>
  The example run in full: two calls of the model and two executions, then the budget
  gate; and a run whose only step ends in an execution error.
\<close>

lemma example_run_two_turns:
  "run (example_env ''reply'' (Some ''f()'') (Inr ''1'')) ''query'' (example_agent 2 10) =
     (Some \<lparr>response_content = [], status = STATUS_MAX_STEPS_REACHED,
            steps_taken = 2, response_max_steps = 2\<rparr>,
      \<lparr>max_steps = 2, total_steps = 2, state = MAX_STEPS_REACHED\<rparr>,
      \<lparr>model = 2, runtime = 2,
        messages = [SystemMessage ''system prompt'', UserMessage ''query'',
                    CodeExecutionMessage ''reply'', ExecutionResultMessage ''Result: 1'',
                    CodeExecutionMessage ''reply'', ExecutionResultMessage ''Result: 1''],
        agent_max_steps = 2, max_history = 10\<rparr>)"
  by (simp add: run_def example_env_def example_agent_def start_def new_context_def
        is_running_def next_step_def execute_step_def process_model_response_def
        initialize_conversation_def update_system_message_def add_message_def
        trim_history_def prepare_messages_def Let_def)

lemma example_run_error_then_budget:
  "run (example_env ''reply'' (Some ''f()'') (Inl ''boom'')) ''query'' (example_agent 1 10) =
     (Some \<lparr>response_content = [], status = STATUS_MAX_STEPS_REACHED,
            steps_taken = 1, response_max_steps = 1\<rparr>,
      \<lparr>max_steps = 1, total_steps = 1, state = MAX_STEPS_REACHED\<rparr>,
      \<lparr>model = 1, runtime = 1,
        messages = [SystemMessage ''system prompt'', UserMessage ''query'',
                    CodeExecutionMessage ''reply'',
                    ExecutionResultMessage (retry_prompt ''boom'')],
        agent_max_steps = 1, max_history = 10\<rparr>)"
  by (simp add: run_def example_env_def example_agent_def start_def new_context_def
        is_running_def next_step_def execute_step_def process_model_response_def
        initialize_conversation_def update_system_message_def add_message_def
        trim_history_def prepare_messages_def Let_def)

section \<open>A first response without code\<close>

lemma initialize_conversation_frame:
  "model (initialize_conversation E q ag) = model ag
   \<and> runtime (initialize_conversation E q ag) = runtime ag
   \<and> agent_max_steps (initialize_conversation E q ag) = agent_max_steps ag
   \<and> max_history (initialize_conversation E q ag) = max_history ag"
  by (simp add: initialize_conversation_def add_message_frame update_system_message_def
           split: list.splits)

text \<open>
  C6. With a step budget and a history bound of at least one, if the model's first
  response yields no code (the extractor returns \<open>None\<close> or the empty string), \<open>run\<close>
  returns after one step: status SUCCESS, \<open>steps_taken\<close> 1, the response as content;
  the context is COMPLETED and the last stored message is the response as an
  \<open>AssistantMessage\<close>.
\<close>

theorem run_first_response_final:
  assumes "1 \<le> agent_max_steps ag" and "1 \<le> max_history ag"
    and "model_call E (model ag)
           (prepare_messages (messages (initialize_conversation E query ag))) = (r, m)"
    and "no_code (extract_python_code E r)"
  shows "\<exists>c' ag'. run E query ag =
           (Some \<lparr>response_content = r, status = SUCCESS, steps_taken = 1,
                  response_max_steps = agent_max_steps ag\<rparr>, c', ag')
         \<and> state c' = COMPLETED \<and> total_steps c' = 1
         \<and> messages ag' \<noteq> [] \<and> last (messages ag') = AssistantMessage r
         \<and> role (last (messages ag')) = ASSISTANT"
proof -
  let ?ag0 = "initialize_conversation E query ag"
  let ?c0 = "start (new_context (agent_max_steps ag))"
  let ?c1 = "?c0\<lparr>total_steps := 1\<rparr>"
  let ?ag1 = "add_message (?ag0\<lparr>model := m\<rparr>) (AssistantMessage r)"
  note fr = initialize_conversation_frame[of E query ag]
  have ns: "next_step ?c0 = (True, ?c1)"
    using assms(1) by (simp add: next_step_def start_def new_context_def)
  have pm: "process_model_response E r (?c1, ?ag0\<lparr>model := m\<rparr>) = (r, complete ?c1, ?ag1)"
    using assms(4)
    by (auto simp: process_model_response_def no_code_def split: option.splits)
  have ex: "execute_step E (?c1, ?ag0) = (r, complete ?c1, ?ag1)"
    using assms(3) pm fr by (simp add: execute_step_def)
  have rl: "run_loop E (?c0, ?ag0) =
      (Some \<lparr>response_content = r, status = SUCCESS, steps_taken = 1,
             response_max_steps = agent_max_steps ag\<rparr>, complete ?c1, ?ag1)"
    using ns ex fr
    by (subst run_loop.simps)
       (simp add: is_running_def start_def complete_def add_message_frame)
  have "1 \<le> max_history (?ag0\<lparr>model := m\<rparr>)" using assms(2) fr by simp
  from add_message_last[OF this, of "AssistantMessage r"]
  have l: "messages ?ag1 \<noteq> [] \<and> last (messages ?ag1) = AssistantMessage r" .
  show ?thesis using rl l
    by (auto simp: run_def complete_def AssistantMessage_def)
qed

theorem run_first_response_final_witness:
  "\<exists>c' ag'. run (example_env ''done'' None (Inr ''1'')) ''query'' (example_agent 5 10) =
           (Some \<lparr>response_content = ''done'', status = SUCCESS, steps_taken = 1,
                  response_max_steps = 5\<rparr>, c', ag')
         \<and> state c' = COMPLETED \<and> total_steps c' = 1
         \<and> messages ag' \<noteq> [] \<and> last (messages ag') = AssistantMessage ''done''
         \<and> role (last (messages ag')) = ASSISTANT"
  using run_first_response_final [of "example_agent 5 10" "example_env ''done'' None (Inr ''1'')"
      "''query''" "''done''" 1]
  by (simp add: example_agent_def example_env_def no_code_def)

section \<open>Execution errors\<close>

text \<open>
  C2. When the response yields code and \<open>execute\<close> raises with the text \<open>error_msg\<close>,
  \<open>_process_model_response\<close> returns normally: its result is
  \<open>Execution failed: error_msg\<close>, the last stored message is an
  \<open>ExecutionResultMessage\<close> holding the retry prompt with that text, and the context is
  handed back as it was. So when this call is the step of a loop iteration (started
  from \<open>c0\<close>, where \<open>next_step\<close> allowed the step), the context is still RUNNING and the
  run loop goes on with the next iteration.
\<close>

theorem execution_error_recovered:
  assumes "extract_python_code E r = Some code" and "code \<noteq> []"
    and "runtime_execute E (runtime ag) code = (Inl error_msg, rt)"
    and "1 \<le> max_history ag"
  shows "\<exists>ag'. process_model_response E r (c, ag) = (''Execution failed: '' @ error_msg, c, ag')
           \<and> messages ag' \<noteq> []
           \<and> last (messages ag') = ExecutionResultMessage
                (''Error: '' @ error_msg @ [CHR 0x0A] @ ''Please fix the code and try again.'')
           \<and> role (last (messages ag')) = EXECUTION_RESULT
           \<and> (is_running c0 \<and> next_step c0 = (True, c)
                \<and> model_call E (model ag0) (prepare_messages (messages ag0)) = (r, m)
                \<and> ag = ag0\<lparr>model := m\<rparr>
              \<longrightarrow> is_running c \<and> run_loop E (c0, ag0) = run_loop E (c, ag'))"
proof -
  let ?ag1 = "add_message ag (CodeExecutionMessage r)"
  have rt: "runtime ?ag1 = runtime ag" and mh: "max_history ?ag1 = max_history ag"
    by (simp_all add: add_message_frame)
  let ?ag2 = "add_message (?ag1\<lparr>runtime := rt\<rparr>) (ExecutionResultMessage (retry_prompt error_msg))"
  have p: "process_model_response E r (c, ag) = (''Execution failed: '' @ error_msg, c, ?ag2)"
    using assms(1,2,3) by (simp add: process_model_response_def Let_def rt)
  have "1 \<le> max_history (?ag1\<lparr>runtime := rt\<rparr>)" using assms(4) mh by simp
  from add_message_last[OF this, of "ExecutionResultMessage (retry_prompt error_msg)"]
  have l: "messages ?ag2 \<noteq> [] \<and> last (messages ?ag2) = ExecutionResultMessage (retry_prompt error_msg)" .
  have loop: "is_running c \<and> run_loop E (c0, ag0) = run_loop E (c, ?ag2)"
    if h: "is_running c0" "next_step c0 = (True, c)"
      "model_call E (model ag0) (prepare_messages (messages ag0)) = (r, m)"
      "ag = ag0\<lparr>model := m\<rparr>"
  proof -
    from h(1,2) have rc: "is_running c"
      by (auto simp: next_step_def is_running_def split: if_splits)
    have ex: "execute_step E (c, ag0) = (''Execution failed: '' @ error_msg, c, ?ag2)"
      using h(3,4) p by (simp add: execute_step_def)
    have "run_loop E (c0, ag0) = run_loop E (c, ?ag2)"
      using h(1,2) ex rc by (subst run_loop.simps) simp
    with rc show ?thesis by simp
  qed
  show ?thesis using p l loop
    by (auto simp: retry_prompt_def ExecutionResultMessage_def)
qed

theorem execution_error_recovered_witness:
  "\<exists>ag'. process_model_response (example_env ''reply'' (Some ''f()'') (Inl ''boom'')) ''reply''
            (\<lparr>max_steps = 2, total_steps = 1, state = RUNNING\<rparr>, (example_agent 2 10)\<lparr>model := 1\<rparr>)
           = (''Execution failed: boom'', \<lparr>max_steps = 2, total_steps = 1, state = RUNNING\<rparr>, ag')
           \<and> messages ag' \<noteq> []
           \<and> last (messages ag') = ExecutionResultMessage
                (''Error: boom'' @ [CHR 0x0A] @ ''Please fix the code and try again.'')
           \<and> role (last (messages ag')) = EXECUTION_RESULT
           \<and> is_running \<lparr>max_steps = 2, total_steps = 1, state = RUNNING\<rparr>
           \<and> run_loop (example_env ''reply'' (Some ''f()'') (Inl ''boom''))
                (\<lparr>max_steps = 2, total_steps = 0, state = RUNNING\<rparr>, example_agent 2 10)
             = run_loop (example_env ''reply'' (Some ''f()'') (Inl ''boom''))
                (\<lparr>max_steps = 2, total_steps = 1, state = RUNNING\<rparr>, ag')"
  using execution_error_recovered [of "example_env ''reply'' (Some ''f()'') (Inl ''boom'')"
      "''reply''" "''f()''" "(example_agent 2 10)\<lparr>model := 1\<rparr>" "''boom''" 1
      "\<lparr>max_steps = 2, total_steps = 1, state = RUNNING\<rparr>"
      "\<lparr>max_steps = 2, total_steps = 0, state = RUNNING\<rparr>" "example_agent 2 10" 1]
  by (simp add: example_agent_def example_env_def is_running_def next_step_def)

section \<open>Serialising the message store\<close>

text \<open>
  C5. \<open>_prepare_messages\<close> returns one dict per stored message, in order, with the keys
  \<open>role\<close> and \<open>content\<close>; the content is the message's content, and the role is the
  value of the message's role after the mapping CODE_EXECUTION to ASSISTANT,
  EXECUTION_RESULT to USER, every other role unchanged. The function only reads the
  stored list: its argument, the list of message objects with their logical roles, is
  not part of its result.
\<close>

theorem prepare_messages_content_and_role:
  "length (prepare_messages ms) = length ms
   \<and> map (\<lambda>d. map_of d ''content'') (prepare_messages ms) = map (\<lambda>m. Some (content m)) ms
   \<and> map (\<lambda>d. map_of d ''role'') (prepare_messages ms) =
       map (\<lambda>m. Some (case role m of
                         CODE_EXECUTION \<Rightarrow> ''assistant''
                       | EXECUTION_RESULT \<Rightarrow> ''user''
                       | SYSTEM \<Rightarrow> ''system''
                       | USER \<Rightarrow> ''user''
                       | ASSISTANT \<Rightarrow> ''assistant'')) ms
   \<and> map (map fst) (prepare_messages ms) = map (\<lambda>m. [''role'', ''content'']) ms"
  by (auto simp: prepare_messages_def prepare_message_def role_conversions_def
           split: MessageRole.splits)

section \<open>An empty code body\<close>

text \<open>
  C8. When the extractor yields no code body for a response (\<open>None\<close> or the empty
  string, as for an empty fenced block), both step handlers treat it as the final
  answer: the response is added as an \<open>AssistantMessage\<close> (the last stored message,
  for a history bound of at least one), the context is COMPLETED, the streaming
  handler yields the one event FINAL_RESPONSE, the runtime is left as it was, and the
  outcome does not depend on what \<open>execute\<close> would do.
\<close>

theorem empty_code_is_final_answer:
  assumes "no_code (extract_python_code E r)"
  shows "process_model_response E r (c, ag) =
           (r, complete c, add_message ag (AssistantMessage r))
         \<and> process_model_response_streaming E r (c, ag) =
           ([(Event EV_FINAL_RESPONSE r, complete c)], complete c,
            add_message ag (AssistantMessage r))
         \<and> state (complete c) = COMPLETED
         \<and> runtime (add_message ag (AssistantMessage r)) = runtime ag
         \<and> (\<forall>f. process_model_response (E\<lparr>runtime_execute := f\<rparr>) r (c, ag) =
                  process_model_response E r (c, ag))
         \<and> (\<forall>f. process_model_response_streaming (E\<lparr>runtime_execute := f\<rparr>) r (c, ag) =
                  process_model_response_streaming E r (c, ag))
         \<and> (1 \<le> max_history ag \<longrightarrow>
              last (messages (add_message ag (AssistantMessage r))) = AssistantMessage r)"
  using assms add_message_last[of ag "AssistantMessage r"]
  by (auto simp: process_model_response_def process_model_response_streaming_def no_code_def
        complete_def add_message_frame split: option.splits)

theorem empty_code_is_final_answer_witness:
  "process_model_response
      (example_env (''```python'' @ [CHR 0x0A] @ ''```'') (Some []) (Inr ''1''))
      (''```python'' @ [CHR 0x0A] @ ''```'') (start (new_context 5), example_agent 5 10)
     = (''```python'' @ [CHR 0x0A] @ ''```'', complete (start (new_context 5)),
        add_message (example_agent 5 10) (AssistantMessage (''```python'' @ [CHR 0x0A] @ ''```'')))
   \<and> process_model_response_streaming
      (example_env (''```python'' @ [CHR 0x0A] @ ''```'') (Some []) (Inr ''1''))
      (''```python'' @ [CHR 0x0A] @ ''```'') (start (new_context 5), example_agent 5 10)
     = ([(Event EV_FINAL_RESPONSE (''```python'' @ [CHR 0x0A] @ ''```''),
          complete (start (new_context 5)))],
        complete (start (new_context 5)),
        add_message (example_agent 5 10) (AssistantMessage (''```python'' @ [CHR 0x0A] @ ''```'')))
   \<and> state (complete (start (new_context 5))) = COMPLETED
   \<and> last (messages (add_message (example_agent 5 10)
         (AssistantMessage (''```python'' @ [CHR 0x0A] @ ''```''))))
       = AssistantMessage (''```python'' @ [CHR 0x0A] @ ''```'')"
  using empty_code_is_final_answer
    [of "example_env (''```python'' @ [CHR 0x0A] @ ''```'') (Some []) (Inr ''1'')"
        "''```python'' @ [CHR 0x0A] @ ''```''" "start (new_context 5)" "example_agent 5 10"]
  by (simp add: example_env_def example_agent_def no_code_def)

section \<open>The history bound\<close>

text \<open>
  For a bound of at least two, \<open>add_message\<close> keeps the stored list within the bound
  (lemma \<open>add_message_length\<close>) and never touches index 0 (lemma \<open>add_message_hd\<close>):
  an append that takes the list over the bound keeps index 0 and the most recent
  \<open>max_history - 1\<close> of the others, in their order. After \<open>_initialize_conversation\<close>
  index 0 is the system message just built.
\<close>

lemma add_message_trimmed:
  assumes "2 \<le> max_history ag" and "messages ag = a # rest"
    and "max_history ag < int (length (messages ag)) + 1"
  shows "messages (add_message ag m) =
           a # drop (length rest + 2 - nat (max_history ag)) (rest @ [m])"
proof -
  from assms have "nat (2 + (int (length rest) - max_history ag))
      = Suc (Suc (length rest)) - nat (max_history ag)"
    by arith
  with assms show ?thesis
    by (auto simp: add_message_def trim_history_def Let_def py_slice_from_def max_def)
qed

lemma add_message_untrimmed:
  assumes "int (length (messages ag)) + 1 \<le> max_history ag"
  shows "messages (add_message ag m) = messages ag @ [m]"
  using assms by (simp add: add_message_def trim_history_def)

lemma initialize_conversation_system_first:
  "messages (initialize_conversation E q ag) \<noteq> []
   \<and> hd (messages (initialize_conversation E q ag)) = SystemMessage (build_system_prompt E (runtime ag))"
  using add_message_hd[of "update_system_message (build_system_prompt E (runtime ag)) ag" "UserMessage q"]
  by (auto simp: initialize_conversation_def update_system_message_def split: list.splits)

text \<open>
  C3, evaluated where it fails: with \<open>max_history = 1\<close> the slice
  \<open>non_system_messages[-0:]\<close> is the whole list, so nothing is trimmed and the stored
  list is longer than the bound.
\<close>

theorem add_message_max_history_one:
  "messages (add_message (example_agent 5 1\<lparr>messages := [SystemMessage ''s'']\<rparr>) (UserMessage ''q''))
     = [SystemMessage ''s'', UserMessage ''q'']
   \<and> max_history (example_agent 5 1) = 1"
  by (simp add: add_message_def trim_history_def example_agent_def py_slice_from_def)

section \<open>The event sequence of a streaming run\<close>

lemma segment_events_types:
  "e \<in> set (segment_events segs) \<Longrightarrow> event_type e = EV_TEXT \<or> event_type e = EV_CODE"
  by (induction segs) (auto split: if_splits)

lemma parse_chunks_types:
  "e \<in> set (parse_chunks E p chunks) \<Longrightarrow> event_type e = EV_TEXT \<or> event_type e = EV_CODE"
  by (induction chunks arbitrary: p) (auto split: prod.splits dest: segment_events_types)

lemma process_model_response_streaming_events:
  assumes "process_model_response_streaming E r (c, ag) = (evs, s')" and "(e, c') \<in> set evs"
  shows "event_type e \<noteq> EV_MAX_STEPS_REACHED
         \<and> (event_type e = EV_FINAL_RESPONSE \<longrightarrow> \<not> is_running c')"
  using assms
  by (auto simp: process_model_response_streaming_def Let_def complete_def is_running_def
           split: option.splits if_splits prod.splits sum.splits)

lemma stream_step_execution_events:
  assumes "stream_step_execution E (c, ag) = (evs, s')" and "(e, c') \<in> set evs"
  shows "event_type e \<noteq> EV_MAX_STEPS_REACHED
         \<and> (event_type e = EV_FINAL_RESPONSE \<longrightarrow> \<not> is_running c')"
proof -
  obtain chunks m where ms: "model_stream E (model ag) (prepare_messages (messages ag)) = (chunks, m)"
    by (cases "model_stream E (model ag) (prepare_messages (messages ag))")
  obtain evs1 s1 where
    pm: "process_model_response_streaming E (concat chunks) (c, ag\<lparr>model := m\<rparr>) = (evs1, s1)"
    by (cases "process_model_response_streaming E (concat chunks) (c, ag\<lparr>model := m\<rparr>)")
  from assms(1) ms pm
  have evs: "evs = map (\<lambda>e. (e, c)) (parse_chunks E (parser_init E) chunks) @ evs1"
    by (simp add: stream_step_execution_def)
  from assms(2) evs consider
    (seg) "e \<in> set (parse_chunks E (parser_init E) chunks)" | (outcome) "(e, c') \<in> set evs1"
    by auto
  then show ?thesis
  proof cases
    case seg
    from parse_chunks_types[OF this] show ?thesis by auto
  next
    case outcome
    from process_model_response_streaming_events[OF pm this] show ?thesis .
  qed
qed

lemma forward_events_terminal:
  assumes "\<forall>(e, c) \<in> set evs. event_type e \<noteq> EV_MAX_STEPS_REACHED
             \<and> (event_type e = EV_FINAL_RESPONSE \<longrightarrow> \<not> is_running c)"
    and "forward_events evs = (out, returned)"
  shows "(\<forall>e \<in> set (butlast out). \<not> terminal e)
         \<and> (\<not> returned \<longrightarrow> (\<forall>e \<in> set out. \<not> terminal e))"
  using assms
proof (induction evs arbitrary: out returned)
  case Nil
  then show ?case by simp
next
  case (Cons a evs)
  obtain e c where a: "a = (e, c)" by (cases a)
  show ?case
  proof (cases "is_running c")
    case False
    with Cons.prems a show ?thesis by auto
  next
    case True
    obtain out' ret' where f: "forward_events evs = (out', ret')"
      by (cases "forward_events evs")
    with Cons.prems(2) a True have o: "out = e # out'" "returned = ret'" by auto
    from Cons.prems(1) a True have ne: "\<not> terminal e" by (auto simp: terminal_def)
    from Cons.prems(1) have "\<forall>(e, c) \<in> set evs. event_type e \<noteq> EV_MAX_STEPS_REACHED
             \<and> (event_type e = EV_FINAL_RESPONSE \<longrightarrow> \<not> is_running c)" by simp
    from Cons.IH[OF this f] o ne show ?thesis
      by (cases out') auto
  qed
qed

lemma stream_loop_terminal_last:
  "\<forall>e \<in> set (butlast (stream_loop E s)). \<not> terminal e"
proof (induction E s rule: stream_loop.induct)
  case (1 E c ag)
  show ?case
  proof (cases "is_running c")
    case False
    then show ?thesis by (subst stream_loop.simps) simp
  next
    case rc: True
    show ?thesis
    proof (cases "total_steps c \<ge> max_steps c")
      case True
      with rc show ?thesis by (subst stream_loop.simps) (simp add: next_step_def)
    next
      case False
      let ?c1 = "c\<lparr>total_steps := total_steps c + 1\<rparr>"
      have ns: "next_step c = (True, ?c1)" using False by (simp add: next_step_def)
      obtain evs c2 ag2 where st: "stream_step_execution E (?c1, ag) = (evs, c2, ag2)"
        by (cases "stream_step_execution E (?c1, ag)") auto
      obtain out ret where fw: "forward_events evs = (out, ret)"
        by (cases "forward_events evs")
      have pre: "\<forall>(e, c) \<in> set evs. event_type e \<noteq> EV_MAX_STEPS_REACHED
             \<and> (event_type e = EV_FINAL_RESPONSE \<longrightarrow> \<not> is_running c)"
        using stream_step_execution_events[OF st] by auto
      note ft = forward_events_terminal[OF pre fw]
      show ?thesis
      proof (cases ret)
        case True
        with rc ns st fw ft show ?thesis by (subst stream_loop.simps) simp
      next
        case False
        have ih: "\<forall>e \<in> set (butlast (stream_loop E (c2, ag2))). \<not> terminal e"
          using rc ns st fw False
          by (intro 1[where x = True and y = ?c1 and xa = evs and ya = "(c2, ag2)"
                 and xb = c2 and yb = ag2 and xc = out and yc = False]) simp_all
        have eq: "stream_loop E (c, ag) = out @ stream_loop E (c2, ag2)"
          using rc ns st fw False by (subst stream_loop.simps) simp
        from ft False have "\<forall>e \<in> set out. \<not> terminal e" by simp
        with ih show ?thesis unfolding eq
          by (auto simp: butlast_append simp del: stream_loop.simps dest: in_set_butlastD)
      qed
    qed
  qed
qed

text \<open>
  C9. In the sequence of events that \<open>stream_events\<close> yields, an event of type
  FINAL_RESPONSE or MAX_STEPS_REACHED is the last one.
\<close>

theorem stream_events_terminal_last:
  "\<forall>i < length (stream_events E query ag).
     event_type (stream_events E query ag ! i) \<in> {EV_FINAL_RESPONSE, EV_MAX_STEPS_REACHED}
     \<longrightarrow> Suc i = length (stream_events E query ag)"
proof (intro allI impI)
  fix i
  let ?evs = "stream_events E query ag"
  assume i: "i < length ?evs"
    and t: "event_type (?evs ! i) \<in> {EV_FINAL_RESPONSE, EV_MAX_STEPS_REACHED}"
  have b: "\<forall>e \<in> set (butlast ?evs). \<not> terminal e"
    unfolding stream_events_def by (rule stream_loop_terminal_last)
  show "Suc i = length ?evs"
  proof (rule ccontr)
    assume "Suc i \<noteq> length ?evs"
    with i have "i < length (butlast ?evs)" by simp
    then have "butlast ?evs ! i \<in> set (butlast ?evs)" by (rule nth_mem)
    moreover have "butlast ?evs ! i = ?evs ! i" using \<open>i < length (butlast ?evs)\<close>
      by (simp add: nth_butlast)
    ultimately have "\<not> terminal (?evs ! i)" using b by auto
    with t show False by (auto simp: terminal_def)
  qed
qed

lemma example_stream_final:
  "stream_events (example_env ''done'' None (Inr ''1'')) ''query'' (example_agent 5 10)
     = [Event EV_TEXT ''done'', Event EV_FINAL_RESPONSE ''done'']"
  unfolding stream_events_def
  apply (subst stream_loop.simps)
  apply (simp add: example_env_def example_agent_def is_running_def start_def new_context_def
      next_step_def stream_step_execution_def process_model_response_streaming_def
      complete_def Let_def)
  done

lemma example_stream_code:
  "stream_events (example_env ''reply'' (Some ''f()'') (Inl ''boom'')) ''query'' (example_agent 1 10)
     = [Event EV_TEXT ''reply'', Event EV_EXECUTION_ERROR ''boom'',
        Event EV_MAX_STEPS_REACHED ''Max steps reached'']"
  unfolding stream_events_def
  apply (subst stream_loop.simps)
  apply (simp add: example_env_def example_agent_def is_running_def start_def new_context_def
      next_step_def stream_step_execution_def process_model_response_streaming_def
      complete_def Let_def)
  done

theorem stream_events_terminal_last_witness:
  "1 < length (stream_events (example_env ''done'' None (Inr ''1'')) ''query'' (example_agent 5 10))
   \<and> event_type (stream_events (example_env ''done'' None (Inr ''1'')) ''query''
        (example_agent 5 10) ! 1) = EV_FINAL_RESPONSE
   \<and> Suc 1 = length (stream_events (example_env ''done'' None (Inr ''1'')) ''query''
        (example_agent 5 10))"
  using stream_events_terminal_last
    [of "example_env ''done'' None (Inr ''1'')" "''query''" "example_agent 5 10",
     rule_format, of 1]
  by (simp add: example_stream_final)

section \<open>Chunking and the incremental segmenter\<close>

lemma scan_append:
  "scan om cm inside buf (d1 @ d2) =
     (case scan om cm inside buf d1 of
        (s1, p) \<Rightarrow>
          (case scan om cm (in_code p) (buffered p) (partial_marker p @ d2) of
             (s2, p2) \<Rightarrow> (s1 @ s2, p2)))"
proof (induction om cm inside buf d1 rule: scan.induct)
  case (1 om cm inside buf)
  show ?case by (simp add: in_code_def split: prod.splits)
next
  case (2 om cm inside buf x xs)
  let ?marker = "awaited_marker om cm inside"
  let ?d = "x # xs"
  have app: "?d @ d2 = x # (xs @ d2)" by simp
  show ?case
  proof (cases "?marker \<noteq> [] \<and> prefix ?marker ?d")
    case True
    then have le: "length ?marker \<le> length ?d" by (auto dest: prefix_length_le)
    from True have p2: "?marker \<noteq> [] \<and> prefix ?marker (x # (xs @ d2))"
      using prefix_prefix[of ?marker ?d d2] by simp
    from le have "length ?marker - length ?d = 0" by simp
    then have dr: "drop (length ?marker) (x # (xs @ d2)) = drop (length ?marker) ?d @ d2"
      unfolding app[symmetric] by (simp only: drop_append drop_0)
    have lhs: "scan om cm inside buf (?d @ d2) =
        (case scan om cm (\<not> inside) [] (drop (length ?marker) ?d @ d2) of
              (segments, p) \<Rightarrow> (flush_buffered inside buf @ segments, p))"
      unfolding app by (subst scan.simps(2), subst if_P[OF p2], subst dr, rule refl)
    have rhs1: "scan om cm inside buf ?d =
        (case scan om cm (\<not> inside) [] (drop (length ?marker) ?d) of
              (segments, p) \<Rightarrow> (flush_buffered inside buf @ segments, p))"
      by (subst scan.simps(2), subst if_P[OF True], rule refl)
    from 2(1)[OF True] have ih: "scan om cm (\<not> inside) [] (drop (length ?marker) ?d @ d2) =
       (case scan om cm (\<not> inside) [] (drop (length ?marker) ?d) of
        (s1, p) \<Rightarrow>
          (case scan om cm (in_code p) (buffered p) (partial_marker p @ d2) of
             (s2, p2) \<Rightarrow> (s1 @ s2, p2)))" .
    show ?thesis unfolding lhs rhs1 ih by (simp split: prod.splits)
  next
    case nm: False
    show ?thesis
    proof (cases "prefix ?d ?marker")
      case True
      have "scan om cm inside buf ?d =
         ([], \<lparr>segmenter_state = (if inside then EXITING_CODE else ENTERING_CODE),
                 buffered = buf, partial_marker = ?d\<rparr>)"
        by (subst scan.simps(2), subst if_not_P[OF nm], subst if_P[OF True], rule refl)
      then show ?thesis by (simp add: in_code_def del: prefix_code scan.simps)
    next
      case False
      have n1: "\<not> (?marker \<noteq> [] \<and> prefix ?marker (x # (xs @ d2)))"
      proof
        assume a: "?marker \<noteq> [] \<and> prefix ?marker (x # (xs @ d2))"
        have "prefix ?d (x # (xs @ d2))" by (rule prefixI) simp
        with a have "prefix ?marker ?d \<or> prefix ?d ?marker"
          using prefix_same_cases by blast
        with nm False a show False by blast
      qed
      have n2: "\<not> prefix (x # (xs @ d2)) ?marker"
      proof
        assume "prefix (x # (xs @ d2)) ?marker"
        then have "prefix (?d @ d2) ?marker" by (simp only: app)
        then have "prefix ?d ?marker" by (rule append_prefixD)
        with False show False by simp
      qed
      have lhs: "scan om cm inside buf (?d @ d2) = scan om cm inside (buf @ [x]) (xs @ d2)"
        unfolding app
        by (subst scan.simps(2), subst if_not_P[OF n1], subst if_not_P[OF n2], rule refl)
      have rhs1: "scan om cm inside buf ?d = scan om cm inside (buf @ [x]) xs"
        by (subst scan.simps(2), subst if_not_P[OF nm], subst if_not_P[OF False], rule refl)
      from 2(2)[OF nm False] show ?thesis unfolding lhs rhs1 .
    qed
  qed
qed

lemma segmenter_process_chunk_append:
  "segmenter_process_chunk om cm p (c1 @ c2) =
     (case segmenter_process_chunk om cm p c1 of
        (s1, p1) \<Rightarrow>
          (case segmenter_process_chunk om cm p1 c2 of (s2, p2) \<Rightarrow> (s1 @ s2, p2)))"
  unfolding segmenter_process_chunk_def append_assoc[symmetric]
  by (rule scan_append)

lemma feed_chunks_concat:
  "feed_chunks om cm p (c # cs) = segmenter_process_chunk om cm p (c @ concat cs)"
proof (induction cs arbitrary: p c)
  case Nil
  show ?case by (simp split: prod.splits)
next
  case (Cons c' cs)
  show ?case
    using Cons.IH
    by (simp add: segmenter_process_chunk_append[of om cm p c "c' @ concat cs"]
             split: prod.splits)
qed

text \<open>
  C7. For the segmenter as the spec describes it: whatever the partition of a text into
  chunks, feeding the chunks in order and flushing at the end yields the same segments,
  in the same order, as feeding the text as one chunk and flushing.
\<close>

theorem segments_independent_of_chunking:
  "concat chunks = text \<Longrightarrow> segments_of om cm chunks = segments_of om cm [text]"
proof (cases chunks)
  case Nil
  assume "concat chunks = text"
  with Nil have "text = []" by simp
  with Nil show ?thesis
    by (simp add: segments_of_def segmenter_process_chunk_def new_segmenter_def in_code_def)
next
  case (Cons c cs)
  assume "concat chunks = text"
  with Cons have t: "text = c @ concat cs" by simp
  have "feed_chunks om cm new_segmenter chunks = feed_chunks om cm new_segmenter [text]"
    unfolding Cons feed_chunks_concat t by simp
  then show ?thesis by (simp add: segments_of_def)
qed

lemma example_segments:
  "segments_of ''```python'' ''```''
     [''Hi '', ''``'', ''`pyt'', ''hon'', ''f()'', ''`'', ''``'', '' bye'']
   = [Segment SEG_TEXT ''Hi '', Segment SEG_CODE ''f()'', Segment SEG_TEXT '' bye'']"
  by code_simp

theorem segments_independent_of_chunking_witness:
  "segments_of ''```python'' ''```''
     [''Hi '', ''``'', ''`pyt'', ''hon'', ''f()'', ''`'', ''``'', '' bye'']
   = segments_of ''```python'' ''```'' [''Hi ```pythonf()``` bye'']"
  using segments_independent_of_chunking
    [of "[''Hi '', ''``'', ''`pyt'', ''hon'', ''f()'', ''`'', ''``'', '' bye'']"
        "''Hi ```pythonf()``` bye''" "''```python''" "''```''"]
  by simp

section \<open>The constructor's copy of the initial messages\<close>

lemma add_message_in_store_frame:
  assumes "messages_ref a < length st"
  shows "\<exists>a' st'. add_message_in_store st a m = Some (a', st')
     \<and> length st \<le> length st' \<and> messages_ref a' < length st'
     \<and> (messages_ref a' = messages_ref a \<or> length st \<le> messages_ref a')
     \<and> st' ! messages_ref a' = history_after (object_max_history a) (st ! messages_ref a) (Add_message m)
     \<and> object_max_history a' = object_max_history a
     \<and> (\<forall>r < length st. r \<noteq> messages_ref a \<longrightarrow> st' ! r = st ! r)"
proof -
  let ?n = "object_max_history a"
  let ?app = "st ! messages_ref a @ [m]"
  let ?st1 = "st[messages_ref a := ?app]"
  obtain ys where t: "trim_history ?n ?app = Inr ys"
    using trim_history_append by blast
  have h: "history_after ?n (st ! messages_ref a) (Add_message m) = ys"
    using t by (simp add: add_message_def history_only_def)
  show ?thesis
  proof (cases "int (length ?app) > ?n")
    case True
    then have "add_message_in_store st a m = Some (a\<lparr>messages_ref := length st\<rparr>, ?st1 @ [ys])"
      using assms t by (simp add: add_message_in_store_def Let_def new_list_def)
    then show ?thesis using assms h
      by (auto simp: nth_append)
  next
    case False
    then have ys: "ys = ?app" using t by (simp add: trim_history_def)
    from False have "add_message_in_store st a m = Some (a, ?st1)"
      using assms by (simp add: add_message_in_store_def Let_def)
    then show ?thesis using assms h ys by auto
  qed
qed

lemma update_system_message_in_store_frame:
  assumes "messages_ref a < length st"
  shows "\<exists>a' st'. update_system_message_in_store st a p = Some (a', st')
     \<and> length st \<le> length st' \<and> messages_ref a' < length st'
     \<and> (messages_ref a' = messages_ref a \<or> length st \<le> messages_ref a')
     \<and> st' ! messages_ref a' = history_after (object_max_history a) (st ! messages_ref a) (Update_system_message p)
     \<and> object_max_history a' = object_max_history a
     \<and> (\<forall>r < length st. r \<noteq> messages_ref a \<longrightarrow> st' ! r = st ! r)"
  using assms
  by (cases "st ! messages_ref a")
     (auto simp: update_system_message_in_store_def update_system_message_def history_only_def)

lemma apply_operation_frame:
  assumes "messages_ref a < length st"
  shows "\<exists>a' st'. apply_operation st a op = Some (a', st')
     \<and> length st \<le> length st' \<and> messages_ref a' < length st'
     \<and> (messages_ref a' = messages_ref a \<or> length st \<le> messages_ref a')
     \<and> st' ! messages_ref a' = history_after (object_max_history a) (st ! messages_ref a) op
     \<and> object_max_history a' = object_max_history a
     \<and> (\<forall>r < length st. r \<noteq> messages_ref a \<longrightarrow> st' ! r = st ! r)"
proof (cases op)
  case (Add_message m)
  with add_message_in_store_frame[OF assms, of m] show ?thesis by simp
next
  case (Update_system_message p)
  with update_system_message_in_store_frame[OF assms, of p] show ?thesis by simp
qed

lemma apply_interleaved_separate:
  assumes "messages_ref a < length st" "messages_ref b < length st" "caller < length st"
    and "messages_ref a \<noteq> messages_ref b" "messages_ref a \<noteq> caller" "messages_ref b \<noteq> caller"
  shows "\<exists>a' b' st'. apply_interleaved st (a, b) ops = Some ((a', b'), st')
     \<and> caller < length st' \<and> st' ! caller = st ! caller
     \<and> st' ! messages_ref a' =
         foldl (history_after (object_max_history a)) (st ! messages_ref a)
           (map snd (filter fst ops))
     \<and> st' ! messages_ref b' =
         foldl (history_after (object_max_history b)) (st ! messages_ref b)
           (map snd (filter (\<lambda>x. \<not> fst x) ops))
     \<and> messages_ref a' \<noteq> messages_ref b'
     \<and> messages_ref a' \<noteq> caller \<and> messages_ref b' \<noteq> caller"
  using assms
proof (induction ops arbitrary: st a b)
  case Nil
  then show ?case by simp
next
  case (Cons x ops)
  obtain first op where x: "x = (first, op)" by (cases x)
  show ?case
  proof (cases first)
    case True
    from apply_operation_frame[OF Cons.prems(1), of op] obtain a1 st1 where
      s: "apply_operation st a op = Some (a1, st1)" and
      f: "length st \<le> length st1" "messages_ref a1 < length st1"
         "messages_ref a1 = messages_ref a \<or> length st \<le> messages_ref a1"
         "st1 ! messages_ref a1 = history_after (object_max_history a) (st ! messages_ref a) op"
         "object_max_history a1 = object_max_history a"
         "\<forall>r < length st. r \<noteq> messages_ref a \<longrightarrow> st1 ! r = st ! r"
      by blast
    have pre: "messages_ref a1 < length st1" "messages_ref b < length st1" "caller < length st1"
      "messages_ref a1 \<noteq> messages_ref b" "messages_ref a1 \<noteq> caller" "messages_ref b \<noteq> caller"
      using f Cons.prems by auto
    have keep: "st1 ! caller = st ! caller" "st1 ! messages_ref b = st ! messages_ref b"
      using f(6) Cons.prems by auto
    from Cons.IH[OF pre] show ?thesis
      using x True s f(4,5) keep by auto
  next
    case False
    from apply_operation_frame[OF Cons.prems(2), of op] obtain b1 st1 where
      s: "apply_operation st b op = Some (b1, st1)" and
      f: "length st \<le> length st1" "messages_ref b1 < length st1"
         "messages_ref b1 = messages_ref b \<or> length st \<le> messages_ref b1"
         "st1 ! messages_ref b1 = history_after (object_max_history b) (st ! messages_ref b) op"
         "object_max_history b1 = object_max_history b"
         "\<forall>r < length st. r \<noteq> messages_ref b \<longrightarrow> st1 ! r = st ! r"
      by blast
    have pre: "messages_ref a < length st1" "messages_ref b1 < length st1" "caller < length st1"
      "messages_ref a \<noteq> messages_ref b1" "messages_ref a \<noteq> caller" "messages_ref b1 \<noteq> caller"
      using f Cons.prems by auto
    have keep: "st1 ! caller = st ! caller" "st1 ! messages_ref a = st ! messages_ref a"
      using f(6) Cons.prems by auto
    from Cons.IH[OF pre] show ?thesis
      using x False s f(4,5) keep by auto
  qed
qed

text \<open>
  C10. The constructor stores a copy of the list it is given: the agent's list is a new
  object with the same elements. Two agents constructed from one list object (the
  default \<open>[]\<close> of the signature, or any list a caller passes) have lists of their
  own, and after any interleaving of their operations (appending with its trimming,
  rewriting the system message) the given list is as it was, and each agent's history
  is what its own operations alone make of the initial messages.
\<close>

theorem constructor_copies_messages:
  assumes "caller < length st"
  shows "\<exists>a st1 b st2.
     init_agent st caller n = Some (a, st1) \<and> init_agent st1 caller k = Some (b, st2)
     \<and> messages_ref a \<noteq> caller \<and> messages_ref b \<noteq> caller
     \<and> messages_ref a \<noteq> messages_ref b
     \<and> st2 ! messages_ref a = st ! caller \<and> st2 ! messages_ref b = st ! caller
     \<and> (\<forall>ops. \<exists>a' b' st'.
           apply_interleaved st2 (a, b) ops = Some ((a', b'), st')
           \<and> st' ! caller = st ! caller
           \<and> st' ! messages_ref a' =
               foldl (history_after n) (st ! caller) (map snd (filter fst ops))
           \<and> st' ! messages_ref b' =
               foldl (history_after k) (st ! caller) (map snd (filter (\<lambda>x. \<not> fst x) ops))
           \<and> messages_ref a' \<noteq> messages_ref b'
           \<and> messages_ref a' \<noteq> caller \<and> messages_ref b' \<noteq> caller)"
proof -
  let ?a = "\<lparr>messages_ref = length st, object_max_history = n\<rparr>"
  let ?st1 = "st @ [st ! caller]"
  let ?b = "\<lparr>messages_ref = Suc (length st), object_max_history = k\<rparr>"
  let ?st2 = "?st1 @ [st ! caller]"
  have ia: "init_agent st caller n = Some (?a, ?st1)"
    using assms by (simp add: init_agent_def new_list_def)
  have ib: "init_agent ?st1 caller k = Some (?b, ?st2)"
    using assms by (simp add: init_agent_def new_list_def nth_append)
  have v: "?st2 ! messages_ref ?a = st ! caller" "?st2 ! messages_ref ?b = st ! caller"
    "?st2 ! caller = st ! caller"
    using assms by (simp_all add: nth_append)
  have pre: "messages_ref ?a < length ?st2" "messages_ref ?b < length ?st2" "caller < length ?st2"
    "messages_ref ?a \<noteq> messages_ref ?b" "messages_ref ?a \<noteq> caller" "messages_ref ?b \<noteq> caller"
    using assms by simp_all
  have "\<exists>a' b' st'.
           apply_interleaved ?st2 (?a, ?b) ops = Some ((a', b'), st')
           \<and> st' ! caller = st ! caller
           \<and> st' ! messages_ref a' =
               foldl (history_after n) (st ! caller) (map snd (filter fst ops))
           \<and> st' ! messages_ref b' =
               foldl (history_after k) (st ! caller) (map snd (filter (\<lambda>x. \<not> fst x) ops))
           \<and> messages_ref a' \<noteq> messages_ref b'
           \<and> messages_ref a' \<noteq> caller \<and> messages_ref b' \<noteq> caller" for ops
    using apply_interleaved_separate[OF pre, of ops] v by auto
  then show ?thesis using ia ib v assms
    by (intro exI[of _ ?a] exI[of _ ?st1] exI[of _ ?b] exI[of _ ?st2]) auto
qed

theorem constructor_copies_messages_witness:
  "\<exists>a st1 b st2.
     init_agent [[]] 0 2 = Some (a, st1) \<and> init_agent st1 0 10 = Some (b, st2)
     \<and> messages_ref a \<noteq> 0 \<and> messages_ref b \<noteq> 0
     \<and> messages_ref a \<noteq> messages_ref b
     \<and> st2 ! messages_ref a = [[]] ! 0 \<and> st2 ! messages_ref b = [[]] ! 0
     \<and> (\<forall>ops. \<exists>a' b' st'.
           apply_interleaved st2 (a, b) ops = Some ((a', b'), st')
           \<and> st' ! 0 = [[]] ! 0
           \<and> st' ! messages_ref a' =
               foldl (history_after 2) ([[]] ! 0) (map snd (filter fst ops))
           \<and> st' ! messages_ref b' =
               foldl (history_after 10) ([[]] ! 0) (map snd (filter (\<lambda>x. \<not> fst x) ops))
           \<and> messages_ref a' \<noteq> messages_ref b'
           \<and> messages_ref a' \<noteq> 0 \<and> messages_ref b' \<noteq> 0)"
  using constructor_copies_messages [of 0 "[[]]" 2 10]
  by simp

text \<open>
  Two agents made from the default list, the first with \<open>max_history = 2\<close>: after a
  system message and two user messages the first agent's list was trimmed into a new
  object, and the default list and the second agent's list are still empty.
\<close>

lemma example_two_agents:
  "apply_interleaved [[], [], []]
     (\<lparr>messages_ref = 1, object_max_history = 2\<rparr>, \<lparr>messages_ref = 2, object_max_history = 10\<rparr>)
     [(True, Update_system_message ''s''), (True, Add_message (UserMessage ''q'')),
      (True, Add_message (UserMessage ''r''))]
   = Some ((\<lparr>messages_ref = 3, object_max_history = 2\<rparr>,
            \<lparr>messages_ref = 2, object_max_history = 10\<rparr>),
           [[], [SystemMessage ''s'', UserMessage ''q'', UserMessage ''r''], [],
            [SystemMessage ''s'', UserMessage ''r'']])"
  by (simp add: update_system_message_in_store_def add_message_in_store_def trim_history_def
        py_slice_from_def new_list_def Let_def)

end
